theory Spec2Isabelle
  imports Main "HOL-Library.Sublist"
begin

section \<open>Text and regular expressions, as the Python scripts use them\<close>

text \<open>
  The three scripts (\<^verbatim>\<open>fix_instances.py\<close>, \<^verbatim>\<open>remove_instance_props.py\<close>,
  \<^verbatim>\<open>update_debug_logs.py\<close>) transform the text of C# files with Python's \<^verbatim>\<open>re\<close>
  module and substring tests. A Python \<^verbatim>\<open>str\<close> is modelled as a \<open>string\<close>, each
  \<open>char\<close> standing for one code point in the range 0 to 255; code points above 255 are
  outside the model. The classes \<^verbatim>\<open>\s\<close> and \<^verbatim>\<open>\w\<close> are the ones Python uses for
  \<^verbatim>\<open>str\<close> patterns (Unicode whitespace, Unicode alphanumerics and the underscore),
  restricted to that range.
\<close>

definition is_space :: "char \<Rightarrow> bool" where
  "is_space c = (let n = (of_char c :: nat) in
     (9 \<le> n \<and> n \<le> 13) \<or> (28 \<le> n \<and> n \<le> 32) \<or> n = 133 \<or> n = 160)"

definition is_word :: "char \<Rightarrow> bool" where
  "is_word c = (let n = (of_char c :: nat) in
     (48 \<le> n \<and> n \<le> 57) \<or> (65 \<le> n \<and> n \<le> 90) \<or> n = 95 \<or> (97 \<le> n \<and> n \<le> 122) \<or>
     n = 170 \<or> n = 178 \<or> n = 179 \<or> n = 181 \<or> n = 185 \<or> n = 186 \<or>
     (188 \<le> n \<and> n \<le> 190) \<or> (192 \<le> n \<and> n \<le> 214) \<or> (216 \<le> n \<and> n \<le> 246) \<or> 248 \<le> n)"

text \<open>
  The regular expressions of the scripts use literals, character classes, sequence,
  alternation, the greedy \<^verbatim>\<open>*\<close> and \<^verbatim>\<open>+\<close>, one capture group, and the
  anchors \<^verbatim>\<open>^\<close>, \<^verbatim>\<open>$\<close> and \<^verbatim>\<open>\b\<close>.
\<close>

datatype regex =
    Eps
  | Cls "char \<Rightarrow> bool"
  | Seq regex regex
  | Alt regex regex
  | Star regex
  | Group regex
  | Bol
  | Eol
  | WordB

text \<open>
  A matcher state is the character before the current position (\<open>None\<close> at the start
  of the text), the text from the current position on, and the text captured by group 1
  so far.
\<close>

type_synonym mstate = "char option \<times> string \<times> string option"

definition word_before :: "char option \<Rightarrow> bool" where
  "word_before p = (case p of None \<Rightarrow> False | Some c \<Rightarrow> is_word c)"

definition word_at :: "string \<Rightarrow> bool" where
  "word_at s = (case s of [] \<Rightarrow> False | c # _ \<Rightarrow> is_word c)"

text \<open>
  \<open>rmatch r st\<close> lists the states in which a match of \<open>r\<close> starting in \<open>st\<close> can end, in
  the order in which Python's backtracking matcher tries them: a greedy repetition tries
  one more round before it tries to stop, an alternation tries its left branch first.
  The head of the list is the match Python reports. A round of \<open>Star\<close> that consumes
  nothing is not repeated.
\<close>

fun rmatch :: "regex \<Rightarrow> mstate \<Rightarrow> mstate list" where
  "rmatch Eps st = [st]"
| "rmatch (Cls P) (p, s, g) =
     (case s of [] \<Rightarrow> [] | c # cs \<Rightarrow> if P c then [(Some c, cs, g)] else [])"
| "rmatch (Seq a b) st = concat (map (rmatch b) (rmatch a st))"
| "rmatch (Alt a b) st = rmatch a st @ rmatch b st"
| "rmatch (Star a) (p, s, g) =
     concat (map (\<lambda>st'. if length (fst (snd st')) < length s then rmatch (Star a) st' else [])
                 (rmatch a (p, s, g))) @ [(p, s, g)]"
| "rmatch (Group a) (p, s, g) =
     map (\<lambda>st'. (fst st', fst (snd st'), Some (take (length s - length (fst (snd st'))) s)))
         (rmatch a (p, s, g))"
| "rmatch Bol (p, s, g) = (if p = None then [(p, s, g)] else [])"
| "rmatch Eol (p, s, g) = (if s = [] \<or> s = [CHR 0x0A] then [(p, s, g)] else [])"
| "rmatch WordB (p, s, g) = (if word_before p \<noteq> word_at s then [(p, s, g)] else [])"

definition seqs :: "regex list \<Rightarrow> regex" where
  "seqs rs = foldr Seq rs Eps"

definition lit :: "string \<Rightarrow> regex" where
  "lit s = seqs (map (\<lambda>c. Cls (\<lambda>x. x = c)) s)"

definition rplus :: "regex \<Rightarrow> regex" where
  "rplus r = Seq r (Star r)"

text \<open>The character before the position reached after reading \<open>w\<close>.\<close>

definition lastc :: "char option \<Rightarrow> string \<Rightarrow> char option" where
  "lastc p w = (if w = [] then p else Some (last w))"

text \<open>
  \<^verbatim>\<open>re.search(r, s)\<close>: the first match at the leftmost position that has one.
\<close>

fun re_search_from :: "regex \<Rightarrow> char option \<Rightarrow> string \<Rightarrow> mstate option" where
  "re_search_from r p [] = (case rmatch r (p, [], None) of [] \<Rightarrow> None | m # _ \<Rightarrow> Some m)"
| "re_search_from r p (c # cs) =
     (case rmatch r (p, c # cs, None) of
        [] \<Rightarrow> re_search_from r (Some c) cs
      | m # _ \<Rightarrow> Some m)"

definition re_search :: "regex \<Rightarrow> string \<Rightarrow> bool" where
  "re_search r s = (re_search_from r None s \<noteq> None)"

text \<open>\<^verbatim>\<open>sub in s\<close>: \<open>sub\<close> occurs in \<open>s\<close> as a contiguous piece.\<close>

fun str_in :: "string \<Rightarrow> string \<Rightarrow> bool" where
  "str_in sub [] = (sub = [])"
| "str_in sub (c # cs) = (prefix sub (c # cs) \<or> str_in sub cs)"

section \<open>The Block Remover: \<^verbatim>\<open>remove_instance_props.py\<close>\<close>

text \<open>
  The four tests of \<^verbatim>\<open>remove_singleton_code\<close>, in the order of the source:
  \<^item> \<^verbatim>\<open>re.search(r'public\s+static\s+\w+\s+Instance\s*{', line)\<close>
  \<^item> \<^verbatim>\<open>'if (Instance != null && Instance != this)' in line or 'if (Instance != null' in line\<close>
  \<^item> \<^verbatim>\<open>re.search(r'^\s+Instance\s*=\s*(this|null);', line)\<close>
  \<^item> \<^verbatim>\<open>re.search(r'if\s*\(\s*Instance\s*==\s*this\s*\)', line)\<close>
\<close>

definition PROPERTY_PATTERN :: regex where
  "PROPERTY_PATTERN = seqs [lit ''public'', rplus (Cls is_space), lit ''static'',
     rplus (Cls is_space), rplus (Cls is_word), rplus (Cls is_space), lit ''Instance'',
     Star (Cls is_space), lit ''{'']"

definition is_guard :: "string \<Rightarrow> bool" where
  "is_guard line = (str_in ''if (Instance != null && Instance != this)'' line
     \<or> str_in ''if (Instance != null'' line)"

definition ASSIGN_PATTERN :: regex where
  "ASSIGN_PATTERN = seqs [Bol, rplus (Cls is_space), lit ''Instance'', Star (Cls is_space),
     lit ''='', Star (Cls is_space), Group (Alt (lit ''this'') (lit ''null'')), lit '';'']"

definition TEARDOWN_PATTERN :: regex where
  "TEARDOWN_PATTERN = seqs [lit ''if'', Star (Cls is_space), lit ''('', Star (Cls is_space),
     lit ''Instance'', Star (Cls is_space), lit ''=='', Star (Cls is_space), lit ''this'',
     Star (Cls is_space), lit '')'']"

text \<open>
  The inner loop of the two guard rules,
  \<^verbatim>\<open>while i < len(lines) and '}' not in lines[i]: i += 1\<close>.
\<close>

function skip_block :: "string list \<Rightarrow> nat \<Rightarrow> nat" where
  "skip_block lines i =
     (if i < length lines \<and> \<not> str_in ''}'' (lines ! i) then skip_block lines (i + 1) else i)"
  by pat_completeness auto
termination
  by (relation "measure (\<lambda>(lines, i). length lines - i)") auto

declare skip_block.simps [simp del]

lemma skip_block_ge: "i \<le> skip_block lines i"
proof (induction lines i rule: skip_block.induct)
  case (1 lines i)
  then show ?case by (subst skip_block.simps) auto
qed

text \<open>
  The main loop \<^verbatim>\<open>while i < len(lines)\<close>, with its four variables: the index,
  \<^verbatim>\<open>skip_until\<close> (\<open>None\<close> or the closing marker), \<^verbatim>\<open>removed_something\<close> and
  \<^verbatim>\<open>new_lines\<close>. The lines are the ones \<^verbatim>\<open>readlines()\<close> returns, each with its line
  terminator.
\<close>

function remove_loop ::
  "string list \<Rightarrow> nat \<Rightarrow> string option \<Rightarrow> bool \<Rightarrow> string list \<Rightarrow> string list \<times> bool" where
  "remove_loop lines i skip_until removed_something new_lines =
     (if i < length lines then
        (let line = lines ! i in
         if re_search PROPERTY_PATTERN line then
           remove_loop lines (i + 1) (Some ''}'') True new_lines
         else if is_guard line then
           remove_loop lines (skip_block lines i + 1) skip_until True new_lines
         else if re_search ASSIGN_PATTERN line then
           remove_loop lines (i + 1) skip_until True new_lines
         else if re_search TEARDOWN_PATTERN line then
           remove_loop lines (skip_block lines i + 1) skip_until True new_lines
         else (case skip_until of
                 None \<Rightarrow> remove_loop lines (i + 1) skip_until removed_something (new_lines @ [line])
               | Some marker \<Rightarrow>
                   remove_loop lines (i + 1) (if str_in marker line then None else skip_until)
                     removed_something new_lines))
      else (new_lines, removed_something))"
  by pat_completeness auto
termination
proof (relation "measure (\<lambda>(lines, i, _). length lines - i)", goal_cases)
  case 1
  show ?case by simp
next
  case (3 lines i)
  then show ?case using skip_block_ge [of i lines] by simp
next
  case (5 lines i)
  then show ?case using skip_block_ge [of i lines] by simp
qed auto

declare remove_loop.simps [simp del]

text \<open>
  \<^verbatim>\<open>remove_singleton_code(filepath, classname)\<close> on a file holding \<open>lines\<close>: the
  lines of the file afterwards (it is rewritten only when something was removed) and the
  value returned. The source does not use \<^verbatim>\<open>classname\<close>.
\<close>

definition remove_singleton_code :: "string list \<Rightarrow> string \<Rightarrow> string list \<times> bool" where
  "remove_singleton_code lines classname =
     (let (new_lines, removed_something) = remove_loop lines 0 None False []
      in if removed_something then (new_lines, True) else (lines, False))"

subsection \<open>The single-assignment rule in words\<close>

text \<open>
  The shape the third test accepts, written without a regular expression: the line starts
  with at least one whitespace character; after the leading whitespace comes
  \<^verbatim>\<open>Instance\<close>, optional whitespace, \<^verbatim>\<open>=\<close>, optional whitespace, and
  \<^verbatim>\<open>this;\<close> or \<^verbatim>\<open>null;\<close>. Whatever follows the semicolon is not looked at.
\<close>

definition assign_shape :: "string \<Rightarrow> bool" where
  "assign_shape line =
     (let r1 = dropWhile is_space line in
      takeWhile is_space line \<noteq> [] \<and> prefix ''Instance'' r1 \<and>
      (let r2 = dropWhile is_space (drop 8 r1) in
       prefix ''='' r2 \<and>
       (let r3 = dropWhile is_space (drop 1 r2) in
        prefix ''this;'' r3 \<or> prefix ''null;'' r3)))"

text \<open>
  The expression the specification gives for the same rule,
  \<^verbatim>\<open>^\s*Instance\s*=\s*(this|null);$\<close>, for comparison with the one in the source.
\<close>

definition SPEC_ASSIGN_PATTERN :: regex where
  "SPEC_ASSIGN_PATTERN = seqs [Bol, Star (Cls is_space), lit ''Instance'', Star (Cls is_space),
     lit ''='', Star (Cls is_space), Group (Alt (lit ''this'') (lit ''null'')), lit '';'', Eol]"

subsection \<open>A reference scan in which a span is closed to the rules\<close>

text \<open>
  The scan as the specification describes it: once the property rule, the guard rule or
  the teardown rule has opened a span, the scan only looks for the first line that
  contains the closing marker and resumes after it; no rule is tested on a line of the
  span. For the property rule the search starts at the line after the opening line, for
  the two guard rules at the opening line itself, as in the source.
\<close>

definition no_close :: "string \<Rightarrow> bool" where
  "no_close line = (\<not> str_in ''}'' line)"

definition rule_fires :: "string \<Rightarrow> bool" where
  "rule_fires line = (re_search PROPERTY_PATTERN line \<or> is_guard line
     \<or> re_search ASSIGN_PATTERN line \<or> re_search TEARDOWN_PATTERN line)"

function ref_scan :: "string list \<Rightarrow> string list" where
  "ref_scan [] = []"
| "ref_scan (l # ls) =
     (if re_search PROPERTY_PATTERN l then ref_scan (drop 1 (dropWhile no_close ls))
      else if is_guard l then ref_scan (drop 1 (dropWhile no_close (l # ls)))
      else if re_search ASSIGN_PATTERN l then ref_scan ls
      else if re_search TEARDOWN_PATTERN l then ref_scan (drop 1 (dropWhile no_close (l # ls)))
      else l # ref_scan ls)"
  by pat_completeness auto
termination
proof (relation "measure length", goal_cases)
  case (2 l ls)
  then show ?case using length_dropWhile_le [of no_close ls] by simp
next
  case (3 l ls)
  then show ?case using length_dropWhile_le [of no_close "l # ls"] by (simp del: dropWhile.simps)
next
  case (5 l ls)
  then show ?case using length_dropWhile_le [of no_close "l # ls"] by (simp del: dropWhile.simps)
qed auto

text \<open>
  \<open>span_clean\<close> holds of a file when, in the reference scan, none of the four tests fires
  on a line inside a property span: on the lines after the opening line up to and
  including the closing line.
\<close>

function span_clean :: "string list \<Rightarrow> bool" where
  "span_clean [] = True"
| "span_clean (l # ls) =
     (if re_search PROPERTY_PATTERN l then
        list_all (\<lambda>x. \<not> rule_fires x) (takeWhile no_close ls @ take 1 (dropWhile no_close ls))
        \<and> span_clean (drop 1 (dropWhile no_close ls))
      else if is_guard l then span_clean (drop 1 (dropWhile no_close (l # ls)))
      else if re_search ASSIGN_PATTERN l then span_clean ls
      else if re_search TEARDOWN_PATTERN l then span_clean (drop 1 (dropWhile no_close (l # ls)))
      else span_clean ls)"
  by pat_completeness auto
termination
proof (relation "measure length", goal_cases)
  case (2 l ls)
  then show ?case using length_dropWhile_le [of no_close ls] by simp
next
  case (3 l ls)
  then show ?case using length_dropWhile_le [of no_close "l # ls"] by (simp del: dropWhile.simps)
next
  case (5 l ls)
  then show ?case using length_dropWhile_le [of no_close "l # ls"] by (simp del: dropWhile.simps)
qed auto

section \<open>Substitution and iteration over matches\<close>

text \<open>
  \<^verbatim>\<open>re.sub(r, repl, s)\<close> copies the text between matches and writes the replacement for
  each match, found from left to right without overlap. The replacement template is
  modelled as a function of the text of group 1 (\<open>None\<close> when the group took no part);
  \<open>group_text\<close> is the template's \<^verbatim>\<open>\1\<close>. No pattern of the scripts matches the empty
  string; for completeness an empty match is replaced and the scan moves on by one
  character, as Python does. \<^verbatim>\<open>finditer\<close> lists the spans (start, end) of the same
  matches, and \<open>re_search_start\<close> is \<^verbatim>\<open>re.search(r, s).start()\<close>.
\<close>

definition group_text :: "string option \<Rightarrow> string" where
  "group_text g = (case g of None \<Rightarrow> [] | Some t \<Rightarrow> t)"

function re_sub_from :: "regex \<Rightarrow> (string option \<Rightarrow> string) \<Rightarrow> char option \<Rightarrow> string \<Rightarrow> string" where
  "re_sub_from r repl p [] =
     (case rmatch r (p, [], None) of [] \<Rightarrow> [] | m # _ \<Rightarrow> repl (snd (snd m)))"
| "re_sub_from r repl p (c # cs) =
     (case rmatch r (p, c # cs, None) of
        [] \<Rightarrow> c # re_sub_from r repl (Some c) cs
      | m # _ \<Rightarrow>
          if length (fst (snd m)) < length (c # cs)
          then repl (snd (snd m)) @ re_sub_from r repl (fst m) (fst (snd m))
          else repl (snd (snd m)) @ c # re_sub_from r repl (Some c) cs)"
  by pat_completeness auto
termination
  by (relation "measure (\<lambda>(r, repl, p, s). length s)") auto

definition re_sub :: "regex \<Rightarrow> (string option \<Rightarrow> string) \<Rightarrow> string \<Rightarrow> string" where
  "re_sub r repl s = re_sub_from r repl None s"

function re_finditer_from :: "regex \<Rightarrow> nat \<Rightarrow> char option \<Rightarrow> string \<Rightarrow> (nat \<times> nat) list" where
  "re_finditer_from r pos p [] =
     (case rmatch r (p, [], None) of [] \<Rightarrow> [] | m # _ \<Rightarrow> [(pos, pos)])"
| "re_finditer_from r pos p (c # cs) =
     (case rmatch r (p, c # cs, None) of
        [] \<Rightarrow> re_finditer_from r (pos + 1) (Some c) cs
      | m # _ \<Rightarrow>
          if length (fst (snd m)) < length (c # cs)
          then (pos, pos + (length (c # cs) - length (fst (snd m))))
                 # re_finditer_from r (pos + (length (c # cs) - length (fst (snd m)))) (fst m) (fst (snd m))
          else (pos, pos) # re_finditer_from r (pos + 1) (Some c) cs)"
  by pat_completeness auto
termination
  by (relation "measure (\<lambda>(r, pos, p, s). length s)") auto

definition re_finditer :: "regex \<Rightarrow> string \<Rightarrow> (nat \<times> nat) list" where
  "re_finditer r s = re_finditer_from r 0 None s"

fun re_search_start_from :: "regex \<Rightarrow> nat \<Rightarrow> char option \<Rightarrow> string \<Rightarrow> nat option" where
  "re_search_start_from r pos p [] =
     (case rmatch r (p, [], None) of [] \<Rightarrow> None | m # _ \<Rightarrow> Some pos)"
| "re_search_start_from r pos p (c # cs) =
     (case rmatch r (p, c # cs, None) of
        [] \<Rightarrow> re_search_start_from r (pos + 1) (Some c) cs
      | m # _ \<Rightarrow> Some pos)"

definition re_search_start :: "regex \<Rightarrow> string \<Rightarrow> nat option" where
  "re_search_start r s = re_search_start_from r 0 None s"

section \<open>The Reference Rewriter: \<^verbatim>\<open>fix_instances.py\<close>\<close>









section \<open>The Call Wrapper and the Import Injector: \<^verbatim>\<open>update_debug_logs.py\<close>\<close>

text \<open>
  The patterns of the source:
  \<^item> \<^verbatim>\<open>DEBUG_LOG_PATTERN = re.compile(r'(\s+)Debug\.Log\(')\<close>
  \<^item> \<^verbatim>\<open>DEBUG_LOG_WARNING_PATTERN = re.compile(r'(\s+)Debug\.LogWarning\(')\<close>
  \<^item> \<^verbatim>\<open>USING_SECTION_PATTERN = re.compile(r'(using [^;]+;[\r\n]+)+', re.MULTILINE)\<close>
    (the flag changes only \<^verbatim>\<open>^\<close> and \<^verbatim>\<open>$\<close>, which the pattern does not use)
  \<^item> \<^verbatim>\<open>r'namespace\s+[\w\.]+\s*\{'\<close> in \<^verbatim>\<open>add_using_statement\<close>
\<close>

definition USING_STATEMENT :: string where
  "USING_STATEMENT = ''using NeuralBreak.Utils;''"

definition DEBUG_LOG_PATTERN :: regex where
  "DEBUG_LOG_PATTERN = seqs [Group (rplus (Cls is_space)), lit ''Debug.Log('']"

definition DEBUG_LOG_WARNING_PATTERN :: regex where
  "DEBUG_LOG_WARNING_PATTERN = seqs [Group (rplus (Cls is_space)), lit ''Debug.LogWarning('']"

definition USING_SECTION_PATTERN :: regex where
  "USING_SECTION_PATTERN = rplus (Group (seqs [lit ''using '', rplus (Cls (\<lambda>c. c \<noteq> CHR '';'')),
     lit '';'', rplus (Cls (\<lambda>c. c = CHR 0x0D \<or> c = CHR 0x0A))]))"

definition NAMESPACE_PATTERN :: regex where
  "NAMESPACE_PATTERN = seqs [lit ''namespace'', rplus (Cls is_space),
     rplus (Cls (\<lambda>c. is_word c \<or> c = CHR ''.'')), Star (Cls is_space), lit ''{'']"

definition should_process_file :: "string \<Rightarrow> bool" where
  "should_process_file filepath = (\<not> str_in ''Editor'' filepath \<and> \<not> str_in ''Debug'' filepath)"

definition add_using_statement :: "string \<Rightarrow> string" where
  "add_using_statement content =
     (if str_in USING_STATEMENT content then content
      else (case re_finditer USING_SECTION_PATTERN content of
              m # ms \<Rightarrow>
                (let insert_pos = snd (last (m # ms))
                 in take insert_pos content @ USING_STATEMENT @ [CHR 0x0A] @ drop insert_pos content)
            | [] \<Rightarrow>
                (case re_search_start NAMESPACE_PATTERN content of
                   Some insert_pos \<Rightarrow>
                     take insert_pos content @ USING_STATEMENT @ [CHR 0x0A, CHR 0x0A]
                       @ drop insert_pos content
                 | None \<Rightarrow> USING_STATEMENT @ [CHR 0x0A, CHR 0x0A] @ content)))"

definition replace_debug_calls :: "string \<Rightarrow> string" where
  "replace_debug_calls content =
     (let content = re_sub DEBUG_LOG_PATTERN (\<lambda>g. group_text g @ ''LogHelper.Log('') content;
          content = re_sub DEBUG_LOG_WARNING_PATTERN
                      (\<lambda>g. group_text g @ ''LogHelper.LogWarning('') content
      in content)"

definition process_file :: "string \<Rightarrow> string \<times> bool" where
  "process_file original_content =
     (if \<not> str_in ''Debug.Log('' original_content \<and> \<not> str_in ''Debug.LogWarning('' original_content
      then (original_content, False)
      else (let content = replace_debug_calls (add_using_statement original_content)
            in if content \<noteq> original_content then (content, True)
               else (original_content, False)))"

subsection \<open>The Call Wrapper in words\<close>

text \<open>
  A left-to-right scan that rewrites the prefix \<open>frm\<close> to \<open>to\<close> wherever \<open>frm\<close> stands
  directly after a whitespace character, keeps that character, and resumes after the
  rewritten prefix. It is the yardstick for \<^verbatim>\<open>replace_debug_calls\<close>.
\<close>

function wrap_after_ws :: "string \<Rightarrow> string \<Rightarrow> string \<Rightarrow> string" where
  "wrap_after_ws frm to [] = []"
| "wrap_after_ws frm to (c # cs) =
     (if is_space c \<and> prefix frm cs
      then c # to @ wrap_after_ws frm to (drop (length frm) cs)
      else c # wrap_after_ws frm to cs)"
  by pat_completeness auto
termination
  by (relation "measure (\<lambda>(frm, to, s). length s)") auto

section \<open>Properties of the Block Remover\<close>

lemma subseq_drop_le: "i \<le> j \<Longrightarrow> subseq (drop j xs) (drop i xs)"
proof -
  assume "i \<le> j"
  then have "drop j xs = drop (j - i) (drop i xs)" by simp
  then show ?thesis by (metis suffix_drop suffix_imp_subseq)
qed

lemma remove_loop_subseq:
  "\<exists>ys. fst (remove_loop lines i sk rm acc) = acc @ ys \<and> subseq ys (drop i lines)"
proof (induction lines i sk rm acc rule: remove_loop.induct)
  case (1 lines i sk rm acc)
  show ?case
  proof (cases "i < length lines")
    case False
    then show ?thesis by (subst remove_loop.simps) simp
  next
    case True
    let ?line = "lines ! i"
    have step: "subseq ys (drop j lines) \<Longrightarrow> i \<le> j \<Longrightarrow> subseq ys (drop i lines)" for ys j
      using subseq_drop_le [of i j lines] subseq_order.order_trans by blast
    have sb: "i \<le> skip_block lines i + 1" using skip_block_ge [of i lines] by simp
    consider (property) "re_search PROPERTY_PATTERN ?line"
      | (guard) "\<not> re_search PROPERTY_PATTERN ?line" "is_guard ?line"
      | (assign) "\<not> re_search PROPERTY_PATTERN ?line" "\<not> is_guard ?line"
          "re_search ASSIGN_PATTERN ?line"
      | (teardown) "\<not> re_search PROPERTY_PATTERN ?line" "\<not> is_guard ?line"
          "\<not> re_search ASSIGN_PATTERN ?line" "re_search TEARDOWN_PATTERN ?line"
      | (other) "\<not> re_search PROPERTY_PATTERN ?line" "\<not> is_guard ?line"
          "\<not> re_search ASSIGN_PATTERN ?line" "\<not> re_search TEARDOWN_PATTERN ?line"
      by blast
    then show ?thesis
    proof cases
      case property
      from "1.IH"(1) [OF True refl property] obtain ys where
        "fst (remove_loop lines (i + 1) (Some ''}'') True acc) = acc @ ys"
        "subseq ys (drop (i + 1) lines)" by blast
      then show ?thesis using True property step [of ys "i + 1"]
        by (subst remove_loop.simps) auto
    next
      case guard
      from "1.IH"(2) [OF True refl guard] obtain ys where
        "fst (remove_loop lines (skip_block lines i + 1) sk True acc) = acc @ ys"
        "subseq ys (drop (skip_block lines i + 1) lines)" by blast
      then show ?thesis using True guard step [of ys "skip_block lines i + 1"] sb
        by (subst remove_loop.simps) auto
    next
      case assign
      from "1.IH"(3) [OF True refl assign] obtain ys where
        "fst (remove_loop lines (i + 1) sk True acc) = acc @ ys"
        "subseq ys (drop (i + 1) lines)" by blast
      then show ?thesis using True assign step [of ys "i + 1"]
        by (subst remove_loop.simps) auto
    next
      case teardown
      from "1.IH"(4) [OF True refl teardown] obtain ys where
        "fst (remove_loop lines (skip_block lines i + 1) sk True acc) = acc @ ys"
        "subseq ys (drop (skip_block lines i + 1) lines)" by blast
      then show ?thesis using True teardown step [of ys "skip_block lines i + 1"] sb
        by (subst remove_loop.simps) auto
    next
      case other
      show ?thesis
      proof (cases sk)
        case None
        from "1.IH"(5) [OF True refl other None] obtain ys where
          ys: "fst (remove_loop lines (i + 1) sk rm (acc @ [?line])) = (acc @ [?line]) @ ys"
            "subseq ys (drop (i + 1) lines)" by blast
        have "drop i lines = ?line # drop (i + 1) lines"
          using True by (simp add: Cons_nth_drop_Suc)
        then have "subseq (?line # ys) (drop i lines)" using ys(2) by simp
        then show ?thesis using True other None ys(1)
          by (subst remove_loop.simps) auto
      next
        case (Some marker)
        from "1.IH"(6) [OF True refl other Some] obtain ys where
          "fst (remove_loop lines (i + 1) (if str_in marker ?line then None else sk) rm acc)
             = acc @ ys"
          "subseq ys (drop (i + 1) lines)" by blast
        then show ?thesis using True other Some step [of ys "i + 1"]
          by (subst remove_loop.simps) auto
      qed
    qed
  qed
qed

text \<open>
  Claim C10. For every file and every class name, the lines the Block Remover leaves in
  the file are a subsequence of the lines it read: each is a line of the input, verbatim
  and in the original order. The pass deletes whole lines and never inserts,
  duplicates, reorders or changes one.
\<close>

theorem remove_singleton_code_subseq:
  "subseq (fst (remove_singleton_code lines classname)) lines"
proof -
  obtain ys where "fst (remove_loop lines 0 None False []) = [] @ ys" "subseq ys (drop 0 lines)"
    using remove_loop_subseq by blast
  then show ?thesis
    by (auto simp: remove_singleton_code_def split: prod.splits)
qed

subsection \<open>Evaluating the remover on concrete files\<close>

lemmas remover_eval = remove_singleton_code_def remove_loop.simps skip_block.simps re_search_def
  PROPERTY_PATTERN_def ASSIGN_PATTERN_def TEARDOWN_PATTERN_def is_guard_def seqs_def lit_def
  rplus_def is_space_def is_word_def word_before_def word_at_def

subsection \<open>A property block that is never closed\<close>

lemma remove_loop_flag: "rm \<Longrightarrow> snd (remove_loop lines i sk rm acc)"
proof (induction lines i sk rm acc rule: remove_loop.induct)
  case (1 lines i sk rm acc)
  show ?case
    using "1.IH" "1.prems"
    by (subst remove_loop.simps) (auto simp: Let_def split: option.splits)
qed

lemma remove_loop_in_open_span:
  "\<forall>j. i \<le> j \<and> j < length lines \<longrightarrow> \<not> str_in ''}'' (lines ! j) \<Longrightarrow>
   fst (remove_loop lines i (Some ''}'') rm acc) = acc"
proof (induction lines i "Some ''}''" rm acc rule: remove_loop.induct)
  case (1 lines i rm acc)
  have sb: "i \<le> skip_block lines i + 1" using skip_block_ge [of i lines] by simp
  show ?case
  proof (cases "i < length lines")
    case False
    then show ?thesis by (subst remove_loop.simps) simp
  next
    case True
    then have nc: "\<not> str_in ''}'' (lines ! i)" using "1.prems" by simp
    have later: "\<forall>j. i + 1 \<le> j \<and> j < length lines \<longrightarrow> \<not> str_in ''}'' (lines ! j)"
      using "1.prems" by simp
    have later': "\<forall>j. skip_block lines i + 1 \<le> j \<and> j < length lines
        \<longrightarrow> \<not> str_in ''}'' (lines ! j)"
      using "1.prems" sb by simp
    show ?thesis
      using True nc "1.hyps" later later'
      by (subst remove_loop.simps) (auto simp: Let_def)
  qed
qed

text \<open>
  Claim C1, as the code has it. The claim says that a property-block match with no
  closing-marker line after it is abandoned and the file left as it was. The code has no
  such step: the file below loses the opening line and every line after it.
\<close>

theorem unterminated_property_block_truncates:
  "remove_singleton_code
     [''class A : MonoBehaviour\<newline>'', ''public static A Instance {\<newline>'',
      ''  get;\<newline>'', ''int x;\<newline>'']
     ''A'' = ([''class A : MonoBehaviour\<newline>''], True)"
  by (simp add: remover_eval)

text \<open>
  Claim C1, amended. Whenever the main loop stands at a line that matches the property
  pattern (in any state, with any lines \<open>acc\<close> kept so far) and no later line contains
  the closing marker, the loop ends with exactly \<open>acc\<close>: the opening line and every line
  after it, to the end of the file, are deleted, and the file is reported as changed.
\<close>

theorem unterminated_property_block_deletes_to_eof:
  assumes "i < length lines"
    and "re_search PROPERTY_PATTERN (lines ! i)"
    and "\<forall>j. i < j \<and> j < length lines \<longrightarrow> \<not> str_in ''}'' (lines ! j)"
  shows "remove_loop lines i sk rm acc = (acc, True)"
proof -
  have step: "remove_loop lines i sk rm acc = remove_loop lines (i + 1) (Some ''}'') True acc"
    using assms(1,2) by (subst remove_loop.simps) simp
  have "\<forall>j. i + 1 \<le> j \<and> j < length lines \<longrightarrow> \<not> str_in ''}'' (lines ! j)"
    using assms(3) by simp
  then have "fst (remove_loop lines (i + 1) (Some ''}'') True acc) = acc"
    by (rule remove_loop_in_open_span)
  moreover have "snd (remove_loop lines (i + 1) (Some ''}'') True acc)"
    by (rule remove_loop_flag) simp
  ultimately show ?thesis using step by (simp add: prod_eq_iff)
qed

theorem unterminated_property_block_witness:
  "remove_loop [''public static A Instance {\<newline>'', ''  get;\<newline>''] 0 None False []
     = ([], True)"
  using unterminated_property_block_deletes_to_eof
    [of 0 "[''public static A Instance {\<newline>'', ''  get;\<newline>'']" None False "[]"]
  by (simp add: remover_eval nth_Cons')

subsection \<open>The two guard rules\<close>

lemma skip_block_closing:
  "i \<le> k \<Longrightarrow> k < length lines \<Longrightarrow> str_in ''}'' (lines ! k) \<Longrightarrow>
   \<forall>j. i \<le> j \<and> j < k \<longrightarrow> \<not> str_in ''}'' (lines ! j) \<Longrightarrow> skip_block lines i = k"
proof (induction lines i rule: skip_block.induct)
  case (1 lines i)
  show ?case
  proof (cases "i = k")
    case True
    then show ?thesis using "1.prems" by (subst skip_block.simps) simp
  next
    case False
    then have lt: "i < k" using "1.prems"(1) by simp
    then have a: "i < length lines \<and> \<not> str_in ''}'' (lines ! i)" using "1.prems" by simp
    have "skip_block lines (i + 1) = k"
      using "1.IH" [OF a] lt "1.prems" by simp
    then show ?thesis using a by (subst skip_block.simps) simp
  qed
qed

lemma skip_block_no_closing:
  "\<forall>j. i \<le> j \<and> j < length lines \<longrightarrow> \<not> str_in ''}'' (lines ! j) \<Longrightarrow>
   skip_block lines i = max i (length lines)"
proof (induction lines i rule: skip_block.induct)
  case (1 lines i)
  show ?case
  proof (cases "i < length lines")
    case False
    then show ?thesis by (subst skip_block.simps) simp
  next
    case True
    then have a: "i < length lines \<and> \<not> str_in ''}'' (lines ! i)" using "1.prems" by simp
    have "skip_block lines (i + 1) = max (i + 1) (length lines)"
      using "1.IH" [OF a] "1.prems" by simp
    then show ?thesis using a by (subst skip_block.simps) simp
  qed
qed

text \<open>
  Claim C4, as the code has it. The claim says that the guard rule also skips the line
  right after the closing-marker line. In the file below the guard block ends at the
  line \<^verbatim>\<open>}\<close>; the line after it is kept.
\<close>

theorem guard_block_keeps_line_after_closing:
  "remove_singleton_code
     [''if (Instance != null && Instance != this)\<newline>'', ''{\<newline>'', ''    return;\<newline>'',
      ''}\<newline>'', ''DontDestroyOnLoad(gameObject);\<newline>''] ''A''
   = ([''DontDestroyOnLoad(gameObject);\<newline>''], True)"
  by (simp add: remover_eval)

text \<open>
  Claim C4, amended. The guard rule and the teardown rule skip in the same way. When
  the main loop stands at a line \<open>i\<close> on which one of them fires, and \<open>k\<close> is the first
  line at or after \<open>i\<close> that contains the closing marker, the lines \<open>i\<close> to \<open>k\<close> are
  deleted and the loop goes on at line \<open>k + 1\<close> in the state it had (only the changed
  flag is set): the line after the closing line is examined like any other line, by
  neither rule is it skipped. When no line from \<open>i\<close> on contains the closing marker,
  every line from \<open>i\<close> to the end of the file is deleted.
\<close>

theorem guard_rules_skip_through_closing_line:
  assumes "i < length lines"
    and "\<not> re_search PROPERTY_PATTERN (lines ! i)"
    and "is_guard (lines ! i) \<or>
         (\<not> re_search ASSIGN_PATTERN (lines ! i) \<and> re_search TEARDOWN_PATTERN (lines ! i))"
  shows "(i \<le> k \<and> k < length lines \<and> str_in ''}'' (lines ! k) \<and>
           (\<forall>j. i \<le> j \<and> j < k \<longrightarrow> \<not> str_in ''}'' (lines ! j))
           \<longrightarrow> remove_loop lines i sk rm acc = remove_loop lines (k + 1) sk True acc)
       \<and> ((\<forall>j. i \<le> j \<and> j < length lines \<longrightarrow> \<not> str_in ''}'' (lines ! j))
           \<longrightarrow> remove_loop lines i sk rm acc = (acc, True))"
proof -
  have step:
    "remove_loop lines i sk rm acc = remove_loop lines (skip_block lines i + 1) sk True acc"
    using assms by (subst remove_loop.simps) (auto simp: Let_def)
  have eof: "remove_loop lines (length lines + 1) sk True acc = (acc, True)"
    by (subst remove_loop.simps) simp
  show ?thesis
    using step eof assms(1) skip_block_closing [of i k lines] skip_block_no_closing [of i lines]
    by (auto simp: max_def)
qed

theorem guard_rules_witness:
  "remove_loop [''if (Instance != null)\<newline>'', ''return; }\<newline>'', ''Init();\<newline>''] 0 None False []
     = ([''Init();\<newline>''], True)
   \<and> remove_loop [''if (Instance == this)\<newline>'', ''Instance = null; }\<newline>'', ''Save();\<newline>'']
       0 None False []
     = ([''Save();\<newline>''], True)
   \<and> remove_loop [''if (Instance == this)\<newline>'', ''Instance = null;\<newline>''] 0 None False []
     = ([], True)"
  using guard_rules_skip_through_closing_line
      [of 0 "[''if (Instance != null)\<newline>'', ''return; }\<newline>'', ''Init();\<newline>'']" 1 None False "[]"]
    guard_rules_skip_through_closing_line
      [of 0 "[''if (Instance == this)\<newline>'', ''Instance = null; }\<newline>'', ''Save();\<newline>'']"
        1 None False "[]"]
    guard_rules_skip_through_closing_line
      [of 0 "[''if (Instance == this)\<newline>'', ''Instance = null;\<newline>'']" 0 None False "[]"]
  by (simp add: remover_eval nth_Cons')

section \<open>How the matcher runs on the patterns of the scripts\<close>

text \<open>
  A literal is matched by a prefix test, and a repetition of a character class that is
  followed by something that cannot start with a character of the class takes the
  longest run of the class: the matcher never has to back off.
\<close>

lemma concat_map_concat_map:
  "concat (map f (concat (map h xs))) = concat (map (\<lambda>x. concat (map f (h x))) xs)"
  by (induction xs) simp_all

lemma concat_map_Eps: "concat (map (rmatch Eps) xs) = xs"
  by (induction xs) simp_all

lemma rmatch_Seq_assoc: "rmatch (Seq (Seq a b) c) st = rmatch (Seq a (Seq b c)) st"
proof -
  have "rmatch (Seq b c) = (\<lambda>x. concat (map (rmatch c) (rmatch b x)))"
    by (rule ext) simp
  then show ?thesis by (simp add: concat_map_concat_map)
qed

lemma rmatch_Seq_Eps [simp]: "rmatch (Seq Eps r) st = rmatch r st"
  by simp

lemma lit_Nil: "lit [] = Eps"
  by (simp add: lit_def seqs_def)

lemma lit_Cons: "lit (c # w) = Seq (Cls (\<lambda>x. x = c)) (lit w)"
  by (simp add: lit_def seqs_def)

lemma rmatch_lit_Seq:
  "rmatch (Seq (lit w) r) (p, s, g) =
     (if prefix w s then rmatch r (lastc p w, drop (length w) s, g) else [])"
proof (induction w arbitrary: p s)
  case Nil
  then show ?case by (simp add: lit_Nil lastc_def)
next
  case (Cons c w)
  have "rmatch (Seq (lit (c # w)) r) (p, s, g)
      = rmatch (Seq (Cls (\<lambda>x. x = c)) (Seq (lit w) r)) (p, s, g)"
    by (simp only: lit_Cons rmatch_Seq_assoc)
  also have "\<dots> = (case s of [] \<Rightarrow> [] | x # xs \<Rightarrow>
      if x = c then rmatch (Seq (lit w) r) (Some c, xs, g) else [])"
    by (cases s) simp_all
  also have "\<dots> = (if prefix (c # w) s then rmatch r (lastc p (c # w), drop (length (c # w)) s, g) else [])"
    by (cases s) (auto simp: Cons.IH lastc_def simp del: rmatch.simps)
  finally show ?case .
qed

lemma rmatch_lit:
  "rmatch (lit w) (p, s, g) = (if prefix w s then [(lastc p w, drop (length w) s, g)] else [])"
proof -
  have "rmatch (Seq (lit w) Eps) (p, s, g) = rmatch (lit w) (p, s, g)"
    by (simp add: concat_map_Eps)
  then show ?thesis using rmatch_lit_Seq [of w Eps p s g] by simp
qed

lemma rmatch_Star_Cls_Seq:
  assumes "\<And>p' c cs g'. P c \<Longrightarrow> rmatch r (p', c # cs, g') = []"
  shows "rmatch (Seq (Star (Cls P)) r) (p, s, g) = rmatch r (lastc p (takeWhile P s), dropWhile P s, g)"
proof (induction s arbitrary: p)
  case Nil
  then show ?case by (simp add: lastc_def)
next
  case (Cons c cs)
  show ?case
  proof (cases "P c")
    case False
    then show ?thesis by (simp add: lastc_def)
  next
    case True
    have "rmatch (Seq (Star (Cls P)) r) (p, c # cs, g)
       = rmatch (Seq (Star (Cls P)) r) (Some c, cs, g) @ rmatch r (p, c # cs, g)"
      using True by simp
    also have "\<dots> = rmatch r (lastc (Some c) (takeWhile P cs), dropWhile P cs, g)"
      using Cons.IH [of "Some c"] assms [OF True] by simp
    also have "lastc (Some c) (takeWhile P cs) = lastc p (takeWhile P (c # cs))"
      using True by (simp add: lastc_def)
    finally show ?thesis using True by simp
  qed
qed

lemma rmatch_rplus_Cls_Seq:
  assumes "\<And>p' c cs g'. P c \<Longrightarrow> rmatch r (p', c # cs, g') = []"
  shows "rmatch (Seq (rplus (Cls P)) r) (p, s, g) =
     (if takeWhile P s = [] then [] else rmatch r (lastc p (takeWhile P s), dropWhile P s, g))"
proof -
  have "rmatch (Seq (rplus (Cls P)) r) (p, s, g) = rmatch (Seq (Cls P) (Seq (Star (Cls P)) r)) (p, s, g)"
    by (simp only: rplus_def rmatch_Seq_assoc)
  also have "\<dots> = (case s of [] \<Rightarrow> [] | c # cs \<Rightarrow> if P c then rmatch (Seq (Star (Cls P)) r) (Some c, cs, g) else [])"
    by (cases s) simp_all
  also have "\<dots> = (if takeWhile P s = [] then [] else rmatch r (lastc p (takeWhile P s), dropWhile P s, g))"
    by (cases s) (auto simp: rmatch_Star_Cls_Seq [OF assms] lastc_def simp del: rmatch.simps)
  finally show ?thesis .
qed

subsection \<open>The single-assignment rule\<close>

lemma re_search_from_Bol_Some: "re_search_from (Seq Bol r) (Some c) s = None"
  by (induction s arbitrary: c) simp_all

lemma re_search_Bol: "re_search (Seq Bol r) s = (rmatch r (None, s, None) \<noteq> [])"
  by (cases s) (auto simp: re_search_def re_search_from_Bol_Some split: list.splits)

lemma prefix_append_iff: "prefix (u @ v) s = (prefix u s \<and> prefix v (drop (length u) s))"
proof (induction u arbitrary: s)
  case Nil
  then show ?case by simp
next
  case (Cons a u)
  then show ?case by (cases s) auto
qed



lemma assign_tail:
  "(rmatch (Seq (Group (Alt (lit ''this'') (lit ''null''))) (Seq (lit '';'') Eps)) (p, s, g) \<noteq> [])
     = (prefix ''this;'' s \<or> prefix ''null;'' s)"
proof -
  have t: "prefix ''this;'' s = (prefix ''this'' s \<and> prefix '';'' (drop 4 s))"
    using prefix_append_iff [of "''this''" "'';''" s] by (simp add: eval_nat_numeral)
  have n: "prefix ''null;'' s = (prefix ''null'' s \<and> prefix '';'' (drop 4 s))"
    using prefix_append_iff [of "''null''" "'';''" s] by (simp add: eval_nat_numeral)
  have a: "rmatch (Alt (lit ''this'') (lit ''null'')) (p, s, g) =
      (if prefix ''this'' s then [(Some CHR ''s'', drop 4 s, g)] else []) @
      (if prefix ''null'' s then [(Some CHR ''l'', drop 4 s, g)] else [])"
    by (simp add: rmatch_lit lastc_def eval_nat_numeral)
  have e: "rmatch (Seq (lit '';'') Eps) (q, u, h) =
      (if prefix '';'' u then [(Some CHR '';'', drop 1 u, h)] else [])" for q u h
    by (simp only: rmatch_lit_Seq) (simp add: lastc_def)
  have "rmatch (Seq (Group (Alt (lit ''this'') (lit ''null''))) (Seq (lit '';'') Eps)) (p, s, g)
     = concat (map (rmatch (Seq (lit '';'') Eps))
         (rmatch (Group (Alt (lit ''this'') (lit ''null''))) (p, s, g)))"
    by (simp only: rmatch.simps)
  also have "rmatch (Group (Alt (lit ''this'') (lit ''null''))) (p, s, g) =
      map (\<lambda>st'. (fst st', fst (snd st'), Some (take (length s - length (fst (snd st'))) s)))
        (rmatch (Alt (lit ''this'') (lit ''null'')) (p, s, g))"
    by (simp only: rmatch.simps)
  finally show ?thesis
    unfolding a t n by (simp add: e del: rmatch.simps)
qed

lemma space_not_prefix:
  "is_space c \<Longrightarrow> w \<noteq> [] \<Longrightarrow> \<not> is_space (hd w) \<Longrightarrow> \<not> prefix w (c # cs)"
  by (cases w) auto

lemma lit_Seq_fails_on_space:
  "w \<noteq> [] \<Longrightarrow> \<not> is_space (hd w) \<Longrightarrow> is_space c \<Longrightarrow> rmatch (Seq (lit w) r) (p', c # cs, g') = []"
  by (simp add: rmatch_lit_Seq space_not_prefix del: rmatch.simps)

lemma group_this_null_fails_on_space:
  "is_space c \<Longrightarrow>
   rmatch (Seq (Group (Alt (lit ''this'') (lit ''null''))) r) (p', c # cs, g') = []"
proof -
  assume sp: "is_space c"
  have "\<not> prefix ''this'' (c # cs)" "\<not> prefix ''null'' (c # cs)"
    using sp by (auto simp: is_space_def)
  then have "rmatch (Alt (lit ''this'') (lit ''null'')) (p', c # cs, g') = []"
    by (simp add: rmatch_lit)
  then show ?thesis by simp
qed

lemma ASSIGN_PATTERN_unfold:
  "ASSIGN_PATTERN = Seq Bol (Seq (rplus (Cls is_space)) (Seq (lit ''Instance'')
     (Seq (Star (Cls is_space)) (Seq (lit ''='') (Seq (Star (Cls is_space))
       (Seq (Group (Alt (lit ''this'') (lit ''null''))) (Seq (lit '';'') Eps)))))))"
  by (simp add: ASSIGN_PATTERN_def seqs_def)

lemma re_search_ASSIGN_PATTERN: "re_search ASSIGN_PATTERN line = assign_shape line"
proof -
  let ?t7 = "Seq (Group (Alt (lit ''this'') (lit ''null''))) (Seq (lit '';'') Eps)"
  let ?t5 = "Seq (lit ''='') (Seq (Star (Cls is_space)) ?t7)"
  let ?t3 = "Seq (lit ''Instance'') (Seq (Star (Cls is_space)) ?t5)"
  have ns: "\<not> is_space (hd ''Instance'')" "\<not> is_space (hd ''='')"
    by (simp_all add: is_space_def)
  have s6: "rmatch (Seq (Star (Cls is_space)) ?t7) (p, s, g)
      = rmatch ?t7 (lastc p (takeWhile is_space s), dropWhile is_space s, g)" for p s g
    by (rule rmatch_Star_Cls_Seq) (rule group_this_null_fails_on_space)
  have s4: "rmatch (Seq (Star (Cls is_space)) ?t5) (p, s, g)
      = rmatch ?t5 (lastc p (takeWhile is_space s), dropWhile is_space s, g)" for p s g
    by (rule rmatch_Star_Cls_Seq) (rule lit_Seq_fails_on_space, simp, rule ns)
  have s2: "rmatch (Seq (rplus (Cls is_space)) ?t3) (p, s, g)
      = (if takeWhile is_space s = [] then []
         else rmatch ?t3 (lastc p (takeWhile is_space s), dropWhile is_space s, g))" for p s g
    by (rule rmatch_rplus_Cls_Seq) (rule lit_Seq_fails_on_space, simp, rule ns)
  show ?thesis
    unfolding ASSIGN_PATTERN_unfold re_search_Bol s2
    by (auto simp: rmatch_lit_Seq s4 s6 assign_tail assign_shape_def Let_def eval_nat_numeral
        simp del: rmatch.simps)
qed

text \<open>
  Claim C7, as the code has it. The claim gives the rule the expression
  \<^verbatim>\<open>^\s*Instance\s*=\s*(this|null);$\<close>. A line without leading whitespace matches
  that expression and is kept by the code; a line with a comment after the semicolon does
  not match it and is deleted by the code.
\<close>

theorem assign_rule_differs_from_spec_pattern:
  "re_search SPEC_ASSIGN_PATTERN ''Instance = this;\<newline>''
   \<and> remove_singleton_code [''Instance = this;\<newline>''] ''A'' = ([''Instance = this;\<newline>''], False)
   \<and> \<not> re_search SPEC_ASSIGN_PATTERN ''    Instance = this; // singleton\<newline>''
   \<and> remove_singleton_code [''    Instance = this; // singleton\<newline>''] ''A'' = ([], True)"
  by (simp add: remover_eval SPEC_ASSIGN_PATTERN_def)

text \<open>
  Claim C7, amended. The expression of the source, \<^verbatim>\<open>^\s+Instance\s*=\s*(this|null);\<close>,
  matches a line exactly when the line has the shape \<open>assign_shape\<close>: one or more leading
  whitespace characters, \<^verbatim>\<open>Instance\<close>, optional whitespace, \<^verbatim>\<open>=\<close>, optional
  whitespace, \<^verbatim>\<open>this\<close> or \<^verbatim>\<open>null\<close>, and the semicolon, with anything after it.
  On a line on which the property test and the guard test do not fire, a line of this
  shape is deleted outright: the loop goes on at the next line in the same state, with
  the changed flag set and no block scan. A line not of this shape is not deleted by
  this rule: unless the teardown rule fires or a property span is open, it is kept.
\<close>

theorem assign_rule_exact:
  assumes "i < length lines"
    and "\<not> re_search PROPERTY_PATTERN (lines ! i)"
    and "\<not> is_guard (lines ! i)"
  shows "re_search ASSIGN_PATTERN (lines ! i) = assign_shape (lines ! i)
    \<and> (assign_shape (lines ! i) \<longrightarrow>
         remove_loop lines i sk rm acc = remove_loop lines (i + 1) sk True acc)
    \<and> (\<not> assign_shape (lines ! i) \<and> \<not> re_search TEARDOWN_PATTERN (lines ! i) \<longrightarrow>
         remove_loop lines i None rm acc = remove_loop lines (i + 1) None rm (acc @ [lines ! i]))"
proof (intro conjI impI)
  show "re_search ASSIGN_PATTERN (lines ! i) = assign_shape (lines ! i)"
    by (rule re_search_ASSIGN_PATTERN)
next
  assume "assign_shape (lines ! i)"
  then have "re_search ASSIGN_PATTERN (lines ! i)" by (simp only: re_search_ASSIGN_PATTERN)
  then show "remove_loop lines i sk rm acc = remove_loop lines (i + 1) sk True acc"
    using assms by (subst remove_loop.simps) (simp add: Let_def)
next
  assume "\<not> assign_shape (lines ! i) \<and> \<not> re_search TEARDOWN_PATTERN (lines ! i)"
  then have "\<not> re_search ASSIGN_PATTERN (lines ! i)" "\<not> re_search TEARDOWN_PATTERN (lines ! i)"
    by (simp_all add: re_search_ASSIGN_PATTERN)
  then show "remove_loop lines i None rm acc = remove_loop lines (i + 1) None rm (acc @ [lines ! i])"
    using assms by (subst remove_loop.simps) (simp add: Let_def)
qed

theorem assign_rule_witness:
  "remove_loop [''    Instance = null; // reset\<newline>'', ''Instance = this;\<newline>''] 0 None False []
     = ([''Instance = this;\<newline>''], True)
   \<and> assign_shape ''    Instance = null; // reset\<newline>''
   \<and> \<not> assign_shape ''Instance = this;\<newline>''"
  using assign_rule_exact
      [of 0 "[''    Instance = null; // reset\<newline>'', ''Instance = this;\<newline>'']" None False "[]"]
    assign_rule_exact
      [of 1 "[''    Instance = null; // reset\<newline>'', ''Instance = this;\<newline>'']" None True "[]"]
  by (simp add: remover_eval assign_shape_def nth_Cons')

section \<open>The Block Remover against the reference scan\<close>

lemma drop_Suc_nth: "i < length xs \<Longrightarrow> drop i xs = xs ! i # drop (i + 1) xs"
  by (simp add: Cons_nth_drop_Suc)

lemma skip_block_takeWhile:
  "skip_block lines i = (if i \<le> length lines then i + length (takeWhile no_close (drop i lines)) else i)"
proof (induction lines i rule: skip_block.induct)
  case (1 lines i)
  show ?case
  proof (cases "i < length lines")
    case False
    then show ?thesis by (subst skip_block.simps) simp
  next
    case True
    note d = drop_Suc_nth [OF True]
    show ?thesis
    proof (cases "str_in ''}'' (lines ! i)")
      case True
      then show ?thesis using \<open>i < length lines\<close> d
        by (subst skip_block.simps) (simp add: no_close_def)
    next
      case False
      then have "skip_block lines (i + 1) = i + 1 + length (takeWhile no_close (drop (i + 1) lines))"
        using "1.IH" \<open>i < length lines\<close> by simp
      then show ?thesis using \<open>i < length lines\<close> False d
        by (subst skip_block.simps) (simp add: no_close_def)
    qed
  qed
qed

lemma drop_skip_block:
  "i < length lines \<Longrightarrow>
   drop (skip_block lines i + 1) lines = drop 1 (dropWhile no_close (drop i lines))"
  by (simp add: skip_block_takeWhile dropWhile_eq_drop add.commute add.left_commute)

lemma remove_loop_past_end:
  "length lines \<le> i \<Longrightarrow> remove_loop lines i sk rm acc = (acc, rm)"
  by (subst remove_loop.simps) simp

lemma span_skip:
  "list_all (\<lambda>x. \<not> rule_fires x)
     (takeWhile no_close (drop j lines) @ take 1 (dropWhile no_close (drop j lines))) \<Longrightarrow>
   remove_loop lines j (Some ''}'') rm acc =
     remove_loop lines (j + length (takeWhile no_close (drop j lines)) + 1) None rm acc"
proof (induction "length lines - j" arbitrary: j)
  case 0
  then have "length lines \<le> j" by simp
  then show ?case by (simp add: remove_loop_past_end)
next
  case (Suc n)
  then have lt: "j < length lines" by simp
  note d = drop_Suc_nth [OF lt]
  show ?case
  proof (cases "no_close (lines ! j)")
    case True
    have clean: "\<not> rule_fires (lines ! j)" using Suc.prems d True by simp
    have rest: "list_all (\<lambda>x. \<not> rule_fires x)
       (takeWhile no_close (drop (j + 1) lines) @ take 1 (dropWhile no_close (drop (j + 1) lines)))"
      using Suc.prems d True by simp
    have "remove_loop lines j (Some ''}'') rm acc = remove_loop lines (j + 1) (Some ''}'') rm acc"
      using lt clean True
      by (subst remove_loop.simps) (simp add: rule_fires_def no_close_def Let_def)
    also have "\<dots> = remove_loop lines (j + 1 + length (takeWhile no_close (drop (j + 1) lines)) + 1) None rm acc"
      using Suc.hyps(1) [of "j + 1"] Suc.hyps(2) rest by simp
    finally show ?thesis using d True by simp
  next
    case False
    have clean: "\<not> rule_fires (lines ! j)" using Suc.prems d False by simp
    have "remove_loop lines j (Some ''}'') rm acc = remove_loop lines (j + 1) None rm acc"
      using lt clean False
      by (subst remove_loop.simps) (simp add: rule_fires_def no_close_def Let_def)
    then show ?thesis using d False by simp
  qed
qed

lemma remove_loop_ref_scan:
  "span_clean (drop i lines) \<Longrightarrow>
   fst (remove_loop lines i None rm acc) = acc @ ref_scan (drop i lines)"
proof (induction "length lines - i" arbitrary: i rm acc rule: less_induct)
  case less
  show ?case
  proof (cases "i < length lines")
    case False
    then show ?thesis by (simp add: remove_loop_past_end)
  next
    case True
    let ?l = "lines ! i"
    let ?ls = "drop (i + 1) lines"
    note d = drop_Suc_nth [OF True]
    have IH: "span_clean (drop k lines) \<Longrightarrow> i < k \<Longrightarrow>
        fst (remove_loop lines k None rm' acc') = acc' @ ref_scan (drop k lines)" for k rm' acc'
      using less.hyps [of k rm' acc'] True by simp
    have sc: "span_clean (?l # ?ls)" using less.prems d by simp
    consider (property) "re_search PROPERTY_PATTERN ?l"
      | (guard) "\<not> re_search PROPERTY_PATTERN ?l" "is_guard ?l"
      | (assign) "\<not> re_search PROPERTY_PATTERN ?l" "\<not> is_guard ?l" "re_search ASSIGN_PATTERN ?l"
      | (teardown) "\<not> re_search PROPERTY_PATTERN ?l" "\<not> is_guard ?l"
          "\<not> re_search ASSIGN_PATTERN ?l" "re_search TEARDOWN_PATTERN ?l"
      | (other) "\<not> re_search PROPERTY_PATTERN ?l" "\<not> is_guard ?l"
          "\<not> re_search ASSIGN_PATTERN ?l" "\<not> re_search TEARDOWN_PATTERN ?l"
      by blast
    then show ?thesis
    proof cases
      case property
      let ?n = "length (takeWhile no_close ?ls)"
      have clean: "list_all (\<lambda>x. \<not> rule_fires x)
          (takeWhile no_close ?ls @ take 1 (dropWhile no_close ?ls))"
        and rest: "span_clean (drop 1 (dropWhile no_close ?ls))"
        using sc property by simp_all
      have dr: "drop (i + 1 + ?n + 1) lines = drop 1 (dropWhile no_close ?ls)"
        by (simp add: dropWhile_eq_drop add.commute add.left_commute)
      have "remove_loop lines i None rm acc = remove_loop lines (i + 1) (Some ''}'') True acc"
        using True property by (subst remove_loop.simps) simp
      also have "\<dots> = remove_loop lines (i + 1 + ?n + 1) None True acc"
        by (rule span_skip [OF clean])
      finally have "fst (remove_loop lines i None rm acc)
          = acc @ ref_scan (drop (i + 1 + ?n + 1) lines)"
        using IH [of "i + 1 + ?n + 1" True acc] rest dr by simp
      then show ?thesis using d property dr by simp
    next
      case guard
      have dr: "drop (skip_block lines i + 1) lines = drop 1 (dropWhile no_close (?l # ?ls))"
        using drop_skip_block [OF True] d by simp
      have rest: "span_clean (drop 1 (dropWhile no_close (?l # ?ls)))"
        using sc guard by simp
      have "remove_loop lines i None rm acc = remove_loop lines (skip_block lines i + 1) None True acc"
        using True guard by (subst remove_loop.simps) simp
      then have "fst (remove_loop lines i None rm acc)
          = acc @ ref_scan (drop (skip_block lines i + 1) lines)"
        using IH [of "skip_block lines i + 1" True acc] rest dr skip_block_ge [of i lines] by simp
      then show ?thesis using d guard dr by simp
    next
      case assign
      have rest: "span_clean ?ls" using sc assign by simp
      have "remove_loop lines i None rm acc = remove_loop lines (i + 1) None True acc"
        using True assign by (subst remove_loop.simps) simp
      then have "fst (remove_loop lines i None rm acc) = acc @ ref_scan ?ls"
        using IH [of "i + 1" True acc] rest by simp
      then show ?thesis using d assign by simp
    next
      case teardown
      have dr: "drop (skip_block lines i + 1) lines = drop 1 (dropWhile no_close (?l # ?ls))"
        using drop_skip_block [OF True] d by simp
      have rest: "span_clean (drop 1 (dropWhile no_close (?l # ?ls)))"
        using sc teardown by simp
      have "remove_loop lines i None rm acc = remove_loop lines (skip_block lines i + 1) None True acc"
        using True teardown by (subst remove_loop.simps) simp
      then have "fst (remove_loop lines i None rm acc)
          = acc @ ref_scan (drop (skip_block lines i + 1) lines)"
        using IH [of "skip_block lines i + 1" True acc] rest dr skip_block_ge [of i lines] by simp
      then show ?thesis using d teardown dr by simp
    next
      case other
      have rest: "span_clean ?ls" using sc other by simp
      have "remove_loop lines i None rm acc = remove_loop lines (i + 1) None rm (acc @ [?l])"
        using True other by (subst remove_loop.simps) simp
      then have "fst (remove_loop lines i None rm acc) = (acc @ [?l]) @ ref_scan ?ls"
        using IH [of "i + 1" rm "acc @ [?l]"] rest by simp
      then show ?thesis using d other by simp
    qed
  qed
qed

lemma remove_loop_nothing_removed:
  "\<not> snd (remove_loop lines i None rm acc) \<Longrightarrow>
   fst (remove_loop lines i None rm acc) = acc @ drop i lines"
proof (induction "length lines - i" arbitrary: i acc)
  case 0
  then show ?case by (simp add: remove_loop_past_end)
next
  case (Suc n)
  then have lt: "i < length lines" by simp
  have flag: "remove_loop lines i None rm acc = remove_loop lines k sk True acc \<Longrightarrow> False" for k sk
    using Suc.prems remove_loop_flag [of True lines k sk acc] by simp
  have nf: "\<not> rule_fires (lines ! i)"
  proof
    assume "rule_fires (lines ! i)"
    then have "\<exists>k sk. remove_loop lines i None rm acc = remove_loop lines k sk True acc"
      using lt by (subst remove_loop.simps) (auto simp: rule_fires_def Let_def)
    then show False using flag by blast
  qed
  then have step: "remove_loop lines i None rm acc = remove_loop lines (i + 1) None rm (acc @ [lines ! i])"
    using lt by (subst remove_loop.simps) (simp add: rule_fires_def Let_def)
  have "fst (remove_loop lines (i + 1) None rm (acc @ [lines ! i])) = (acc @ [lines ! i]) @ drop (i + 1) lines"
    using Suc.hyps(1) [of "i + 1" "acc @ [lines ! i]"] Suc.hyps(2) Suc.prems step by simp
  then show ?case using step drop_Suc_nth [OF lt] by simp
qed

text \<open>
  Claim C8, as the code has it. The claim says that the output equals that of the
  reference scan. The source tests its four rules on every line before it looks at
  \<^verbatim>\<open>skip_until\<close>, so inside a property span the rules still fire. Below, the guard
  test fires on the second line, which is inside the property span and contains the
  closing marker: the line is deleted by the guard rule, the span stays open and the
  next line, a lone closing brace, is consumed as the end of the span. The reference
  scan closes the span at the second line and keeps the brace.
\<close>

theorem rules_fire_inside_property_span:
  "fst (remove_singleton_code
     [''public static A Instance {\<newline>'',
      ''    get { if (Instance != null) return _i; return null; }\<newline>'',
      ''}\<newline>'', ''void Start() { }\<newline>''] ''A'')
     = [''void Start() { }\<newline>'']
   \<and> ref_scan
     [''public static A Instance {\<newline>'',
      ''    get { if (Instance != null) return _i; return null; }\<newline>'',
      ''}\<newline>'', ''void Start() { }\<newline>'']
     = [''}\<newline>'', ''void Start() { }\<newline>'']"
  by (simp add: remover_eval no_close_def)

text \<open>
  Claim C8, amended. For the guard rule and the teardown rule the claim holds as it
  stands: their inner loop looks for the closing marker only. For the property rule it
  holds when no line inside a property span fires one of the four tests. So on every
  file that is \<open>span_clean\<close> the lines the Block Remover leaves are those of the
  reference scan. (On a line inside a property span the four tests are still run before
  the closing marker is looked for; a line they fire on is deleted without closing the
  span.)
\<close>

theorem remover_refines_reference_scan:
  "span_clean lines \<Longrightarrow> fst (remove_singleton_code lines classname) = ref_scan lines"
proof -
  assume sc: "span_clean lines"
  have a: "fst (remove_loop lines 0 None False []) = ref_scan lines"
    using remove_loop_ref_scan [of 0 lines False "[]"] sc by simp
  have b: "\<not> snd (remove_loop lines 0 None False []) \<Longrightarrow>
      fst (remove_loop lines 0 None False []) = lines"
    using remove_loop_nothing_removed [of lines 0 False "[]"] by simp
  show ?thesis
    using a b by (auto simp: remove_singleton_code_def split: prod.splits)
qed

theorem remover_refines_reference_scan_witness:
  "span_clean
     [''public static A Instance {\<newline>'', ''    get;\<newline>'', ''}\<newline>'',
      ''if (Instance == this)\<newline>'', ''    Instance = null; }\<newline>'', ''void Start() { }\<newline>'']
   \<and> fst (remove_singleton_code
     [''public static A Instance {\<newline>'', ''    get;\<newline>'', ''}\<newline>'',
      ''if (Instance == this)\<newline>'', ''    Instance = null; }\<newline>'', ''void Start() { }\<newline>'']
     ''A'')
     = [''void Start() { }\<newline>'']
   \<and> ref_scan
     [''public static A Instance {\<newline>'', ''    get;\<newline>'', ''}\<newline>'',
      ''if (Instance == this)\<newline>'', ''    Instance = null; }\<newline>'', ''void Start() { }\<newline>'']
     = [''void Start() { }\<newline>'']"
  using remover_refines_reference_scan
    [of "[''public static A Instance {\<newline>'', ''    get;\<newline>'', ''}\<newline>'',
      ''if (Instance == this)\<newline>'', ''    Instance = null; }\<newline>'', ''void Start() { }\<newline>'']"
      "''A''"]
  by (simp add: remover_eval no_close_def rule_fires_def)

section \<open>The catalogs\<close>




section \<open>The Reference Rewriter\<close>










section \<open>The Call Wrapper\<close>

subsection \<open>A whitespace run followed by a literal\<close>

lemma star_cls_concat:
  assumes "\<And>p' c cs g'. P c \<Longrightarrow> h (p', c # cs, g') = []"
  shows "concat (map h (rmatch (Star (Cls P)) (p, s, g))) = h (lastc p (takeWhile P s), dropWhile P s, g)"
proof (induction s arbitrary: p)
  case Nil
  then show ?case by (simp add: lastc_def)
next
  case (Cons c cs)
  show ?case
  proof (cases "P c")
    case False
    then show ?thesis by (simp add: lastc_def)
  next
    case True
    have "concat (map h (rmatch (Star (Cls P)) (p, c # cs, g)))
       = concat (map h (rmatch (Star (Cls P)) (Some c, cs, g))) @ h (p, c # cs, g)"
      using True by simp
    also have "\<dots> = h (lastc (Some c) (takeWhile P cs), dropWhile P cs, g)"
      using Cons.IH [of "Some c"] assms [OF True] by simp
    also have "lastc (Some c) (takeWhile P cs) = lastc p (takeWhile P (c # cs))"
      using True by (simp add: lastc_def)
    finally show ?thesis using True by simp
  qed
qed

lemma rmatch_Group_rplus_Cls_Seq:
  assumes "\<And>p' c cs g'. P c \<Longrightarrow> rmatch r (p', c # cs, g') = []"
  shows "rmatch (Seq (Group (rplus (Cls P))) r) (p, s, g) =
     (if takeWhile P s = [] then []
      else rmatch r (lastc p (takeWhile P s), dropWhile P s, Some (takeWhile P s)))"
proof (cases s)
  case Nil
  then show ?thesis by (simp add: rplus_def)
next
  case (Cons c cs)
  let ?G = "\<lambda>st'. (fst st', fst (snd st'), Some (take (length s - length (fst (snd st'))) s))"
  let ?h = "\<lambda>st'. rmatch r (?G st')"
  show ?thesis
  proof (cases "P c")
    case False
    then show ?thesis using Cons by (simp add: rplus_def)
  next
    case True
    have h0: "?h (p', c' # cs', g') = []" if "P c'" for p' c' cs' g'
      using assms [OF that] by simp
    have "rmatch (Seq (Group (rplus (Cls P))) r) (p, s, g)
       = concat (map ?h (rmatch (Star (Cls P)) (Some c, cs, g)))"
      using Cons True by (simp add: rplus_def comp_def del: rmatch.simps(5))
    also have "\<dots> = ?h (lastc (Some c) (takeWhile P cs), dropWhile P cs, g)"
      by (rule star_cls_concat) (rule h0)
    also have "\<dots> = rmatch r (lastc p (takeWhile P s), dropWhile P s, Some (takeWhile P s))"
    proof -
      have "length s - length (dropWhile P cs) = length (takeWhile P s)"
        using Cons True
        by (simp add: length_dropWhile_le Suc_diff_le) (metis add_diff_cancel_right' length_append takeWhile_dropWhile_id)
      then have "take (length s - length (dropWhile P cs)) s = takeWhile P s"
        by (metis append_eq_conv_conj takeWhile_dropWhile_id)
      then show ?thesis using Cons True by (simp add: lastc_def)
    qed
    finally show ?thesis using Cons True by simp
  qed
qed

lemma rmatch_ws_pattern:
  assumes "frm \<noteq> []" and "\<not> is_space (hd frm)"
  shows "rmatch (seqs [Group (rplus (Cls is_space)), lit frm]) (p, s, g) =
     (if takeWhile is_space s \<noteq> [] \<and> prefix frm (dropWhile is_space s)
      then [(Some (last frm), drop (length frm) (dropWhile is_space s), Some (takeWhile is_space s))]
      else [])"
proof -
  have unf: "seqs [Group (rplus (Cls is_space)), lit frm]
      = Seq (Group (rplus (Cls is_space))) (Seq (lit frm) Eps)"
    by (simp add: seqs_def)
  have fails: "rmatch (Seq (lit frm) Eps) (p', c # cs, g') = []" if "is_space c" for p' c cs g'
    using lit_Seq_fails_on_space [OF assms that] .
  have eq: "rmatch (Seq (Group (rplus (Cls is_space))) (Seq (lit frm) Eps)) (p, s, g) =
     (if takeWhile is_space s = [] then []
      else rmatch (Seq (lit frm) Eps) (lastc p (takeWhile is_space s), dropWhile is_space s, Some (takeWhile is_space s)))"
    by (rule rmatch_Group_rplus_Cls_Seq) (rule fails)
  have l: "lastc q frm = Some (last frm)" for q
    using assms(1) by (simp add: lastc_def)
  show ?thesis
    unfolding unf eq rmatch_lit_Seq l by simp
qed

lemma wrap_ws_run:
  assumes "frm \<noteq> []" and "\<not> is_space (hd frm)" and "prefix frm R"
  shows "W \<noteq> [] \<Longrightarrow> list_all is_space W \<Longrightarrow>
     wrap_after_ws frm to (W @ R) = W @ to @ wrap_after_ws frm to (drop (length frm) R)"
proof (induction W)
  case Nil
  then show ?case by simp
next
  case (Cons c W)
  show ?case
  proof (cases W)
    case Nil
    then show ?thesis using Cons.prems assms(3) by simp
  next
    case (Cons c' W')
    have "is_space c'" using Cons.prems Cons by simp
    then have "\<not> prefix frm (W @ R)"
      using assms(1,2) Cons space_not_prefix [of c' frm "W' @ R"] by simp
    then show ?thesis using Cons.IH Cons.prems Cons by simp
  qed
qed

lemma re_sub_from_ws_pattern:
  assumes "frm \<noteq> []" and "\<not> is_space (hd frm)"
  shows "re_sub_from (seqs [Group (rplus (Cls is_space)), lit frm]) (\<lambda>g. group_text g @ to) p s
     = wrap_after_ws frm to s"
proof (induction "length s" arbitrary: s p rule: less_induct)
  case less
  let ?r = "seqs [Group (rplus (Cls is_space)), lit frm]"
  let ?repl = "\<lambda>g. group_text g @ to"
  note m = rmatch_ws_pattern [OF assms]
  show ?case
  proof (cases s)
    case Nil
    then show ?thesis by (simp add: m)
  next
    case (Cons c cs)
    let ?W = "takeWhile is_space s"
    let ?R = "dropWhile is_space s"
    have IH: "re_sub_from ?r ?repl q t = wrap_after_ws frm to t" if "length t < length s" for q t
      using less.hyps [OF that] .
    show ?thesis
    proof (cases "is_space c")
      case False
      then have "rmatch ?r (p, c # cs, None) = []" by (simp add: m)
      then have "re_sub_from ?r ?repl p s = c # re_sub_from ?r ?repl (Some c) cs"
        using Cons by simp
      then show ?thesis using IH [of cs "Some c"] Cons False by simp
    next
      case True
      then have W: "?W \<noteq> []" "list_all is_space ?W" using Cons by (auto simp: list_all_iff dest: set_takeWhileD)
      show ?thesis
      proof (cases "prefix frm ?R")
        case pre: True
        have len: "length (drop (length frm) ?R) < length s"
          using length_dropWhile_le [of is_space cs] Cons True by simp
        have rm: "rmatch ?r (p, c # cs, None)
            = [(Some (last frm), drop (length frm) ?R, Some ?W)]"
          using W(1) pre Cons by (simp add: m)
        have "re_sub_from ?r ?repl p s
            = ?W @ to @ re_sub_from ?r ?repl (Some (last frm)) (drop (length frm) ?R)"
          using Cons len by (simp add: rm group_text_def del: rmatch.simps)
        also have "\<dots> = ?W @ to @ wrap_after_ws frm to (drop (length frm) ?R)"
          using IH [OF len] by simp
        also have "\<dots> = wrap_after_ws frm to (?W @ ?R)"
          using wrap_ws_run [OF assms pre W] by simp
        finally show ?thesis by simp
      next
        case npre: False
        then have "rmatch ?r (p, c # cs, None) = []" using Cons by (simp add: m)
        then have step: "re_sub_from ?r ?repl p s = c # re_sub_from ?r ?repl (Some c) cs"
          using Cons by simp
        have "\<not> prefix frm cs"
        proof (cases cs)
          case Nil
          then show ?thesis using assms(1) by simp
        next
          case (Cons c' cs')
          show ?thesis
          proof (cases "is_space c'")
            case True
            then show ?thesis using space_not_prefix [OF True assms] Cons by simp
          next
            case False
            then have "?R = cs" using \<open>s = c # cs\<close> \<open>is_space c\<close> Cons by simp
            then show ?thesis using npre by simp
          qed
        qed
        then show ?thesis using step IH [of cs "Some c"] Cons by simp
      qed
    qed
  qed
qed

subsection \<open>Text that the scan passes over\<close>

lemma wrap_after_ws_nonspace:
  "list_all (\<lambda>c. \<not> is_space c) e \<Longrightarrow> wrap_after_ws frm to (e @ b) = e @ wrap_after_ws frm to b"
  by (induction e) simp_all

lemma prefix_comparable:
  "prefix v (e @ b) \<Longrightarrow> prefix v e \<or> prefix e v"
  by (auto simp: prefix_append)

lemma prefix_straddle:
  assumes "prefix frm (u @ x)" and "\<not> prefix frm u"
  shows "length u < length frm \<and> prefix (drop (length u) frm) x"
proof -
  from assms obtain us where "frm = u @ us" "prefix us x"
    by (auto simp: prefix_append)
  moreover from this assms(2) have "us \<noteq> []" by auto
  ultimately show ?thesis by simp
qed

lemma wrap_after_ws_passes:
  assumes ns: "list_all (\<lambda>c. \<not> is_space c) e"
    and nb: "list_all (\<lambda>v. \<not> prefix v e \<and> \<not> prefix e v) (map (\<lambda>k. drop k frm) [0..<length frm])"
  shows "wrap_after_ws frm to (a @ e @ b) = wrap_after_ws frm to a @ e @ wrap_after_ws frm to b"
proof (induction "length a" arbitrary: a rule: less_induct)
  case less
  have nb': "\<not> prefix (drop k frm) (e @ x)" if "k < length frm" for k x
  proof
    assume "prefix (drop k frm) (e @ x)"
    then have "prefix (drop k frm) e \<or> prefix e (drop k frm)" by (rule prefix_comparable)
    moreover have "\<not> prefix (drop k frm) e \<and> \<not> prefix e (drop k frm)"
      using nb that by (simp add: list_all_iff)
    ultimately show False by simp
  qed
  show ?case
  proof (cases a)
    case Nil
    then show ?thesis using wrap_after_ws_nonspace [OF ns] by simp
  next
    case (Cons c u)
    have IH: "wrap_after_ws frm to (t @ e @ b) = wrap_after_ws frm to t @ e @ wrap_after_ws frm to b"
      if "length t < length a" for t
      using less.hyps [OF that] .
    show ?thesis
    proof (cases "is_space c \<and> prefix frm u")
      case True
      then have p: "prefix frm (u @ e @ b)" by (simp add: prefix_append)
      have le: "length frm \<le> length u" using True by (auto simp: prefix_def)
      have "wrap_after_ws frm to (a @ e @ b)
          = c # to @ wrap_after_ws frm to (drop (length frm) u @ e @ b)"
        using Cons True p le by simp
      also have "\<dots> = c # to @ wrap_after_ws frm to (drop (length frm) u) @ e @ wrap_after_ws frm to b"
        using IH [of "drop (length frm) u"] Cons by simp
      finally show ?thesis using Cons True by simp
    next
      case False
      have "\<not> (is_space c \<and> prefix frm (u @ e @ b))"
      proof
        assume A: "is_space c \<and> prefix frm (u @ e @ b)"
        then have "\<not> prefix frm u" using False by simp
        moreover from A have "prefix frm (u @ e @ b)" by simp
        ultimately have "length u < length frm \<and> prefix (drop (length u) frm) (e @ b)"
          using prefix_straddle by blast
        then show False using nb' by blast
      qed
      then have "wrap_after_ws frm to (a @ e @ b) = c # wrap_after_ws frm to (u @ e @ b)"
        using Cons by auto
      then show ?thesis using IH [of u] Cons False by auto
    qed
  qed
qed

lemma replace_debug_calls_wrap:
  "replace_debug_calls content =
     wrap_after_ws ''Debug.LogWarning('' ''LogHelper.LogWarning(''
       (wrap_after_ws ''Debug.Log('' ''LogHelper.Log('' content)"
  by (simp add: replace_debug_calls_def re_sub_def DEBUG_LOG_PATTERN_def DEBUG_LOG_WARNING_PATTERN_def
      re_sub_from_ws_pattern is_space_def)

lemma wrap_Log_passes_LogError:
  "wrap_after_ws ''Debug.Log('' to (a @ ''Debug.LogError'' @ b)
     = wrap_after_ws ''Debug.Log('' to a @ ''Debug.LogError'' @ wrap_after_ws ''Debug.Log('' to b"
  by (rule wrap_after_ws_passes) (simp_all add: is_space_def upt_rec)

lemma wrap_LogWarning_passes_LogError:
  "wrap_after_ws ''Debug.LogWarning('' to (a @ ''Debug.LogError'' @ b)
     = wrap_after_ws ''Debug.LogWarning('' to a @ ''Debug.LogError'' @ wrap_after_ws ''Debug.LogWarning('' to b"
  by (rule wrap_after_ws_passes) (simp_all add: is_space_def upt_rec)

subsection \<open>What the Call Wrapper rewrites\<close>

text \<open>
  Claim C3 says that every occurrence of \<^verbatim>\<open>Debug.Log(\<close> and \<^verbatim>\<open>Debug.LogWarning(\<close> is
  rewritten. The patterns of the script are \<^verbatim>\<open>(\s+)Debug\.Log\(\<close> and
  \<^verbatim>\<open>(\s+)Debug\.LogWarning\(\<close>: an occurrence at the very start of the content, or
  directly after a character that is not whitespace, is left as it is.
\<close>

theorem call_wrapper_needs_whitespace:
  "replace_debug_calls ''Debug.Log(1); if (x)Debug.LogWarning(2);''
     = ''Debug.Log(1); if (x)Debug.LogWarning(2);''"
  by (simp add: replace_debug_calls_wrap is_space_def)

text \<open>
  Claim C3, as the code has it: \<^verbatim>\<open>replace_debug_calls\<close> rewrites \<^verbatim>\<open>Debug.Log(\<close> to
  \<^verbatim>\<open>LogHelper.Log(\<close>, then \<^verbatim>\<open>Debug.LogWarning(\<close> to \<^verbatim>\<open>LogHelper.LogWarning(\<close>, at
  exactly the occurrences that stand directly after a whitespace character, scanning
  from left to right; the whitespace run before the call is kept character for
  character, and every other character of the content is kept. An occurrence of
  \<^verbatim>\<open>Debug.LogError\<close> is never altered: the text before it and the text after it are
  rewritten as if each stood alone.
\<close>

theorem call_wrapper_exact:
  "replace_debug_calls content =
     wrap_after_ws ''Debug.LogWarning('' ''LogHelper.LogWarning(''
       (wrap_after_ws ''Debug.Log('' ''LogHelper.Log('' content)
   \<and> replace_debug_calls (a @ ''Debug.LogError'' @ b)
     = replace_debug_calls a @ ''Debug.LogError'' @ replace_debug_calls b"
  by (simp only: replace_debug_calls_wrap wrap_Log_passes_LogError wrap_LogWarning_passes_LogError)

end
